theory Spec2Isabelle
  imports Complex_Main "HOL-Library.Multiset" "HOL-Library.Product_Lexorder" "HOL-Library.Log_Nat"
begin

section \<open>Image sorting by colour mood: the model of \<^verbatim>\<open>script.py\<close>\<close>

text \<open>
  Python floats are modelled in two ways. The functions \<open>rgb_to_hsv\<close>, \<open>analyze_colors\<close>
  and \<open>categorize_color\<close> read every arithmetic operation as the exact one on the reals,
  and a decimal literal such as \<^verbatim>\<open>0.3\<close> as the rational number it spells: comparisons,
  branch order and data flow are as in the source, rounding is left out. The function
  \<open>rgb_to_hsv_double\<close> is \<^verbatim>\<open>rgb_to_hsv\<close> again with every operation rounded to an
  IEEE double, as numpy's \<^verbatim>\<open>float64\<close> computes it; it is the one to use where the last
  bit of a result matters. Python strings are \<open>string\<close>, Python tuples are tuples or
  records, and every exception the script can meet is a value of \<open>py_error\<close>.
\<close>

subsection \<open>Configuration\<close>

datatype py_error = ValueError | FileNotFoundError | FileExistsError | UnidentifiedImageError

definition categories_order :: "string list" where
  "categories_order = [''earthy'', ''warm'', ''bright'', ''cool'', ''muted'']"

subsection \<open>\<^verbatim>\<open>rgb_to_hsv\<close>\<close>

type_synonym rgb = "real \<times> real \<times> real"
type_synonym hsv = "real \<times> real \<times> real"

text \<open>Python's \<^verbatim>\<open>x % m\<close> on floats, for a positive modulus: the result has the sign of \<open>m\<close>.\<close>

definition py_mod :: "real \<Rightarrow> real \<Rightarrow> real" where
  "py_mod x m = x - m * of_int \<lfloor>x / m\<rfloor>"

definition rgb_to_hsv :: "rgb \<Rightarrow> hsv" where
  "rgb_to_hsv rgb =
     (case rgb of (r0, g0, b0) \<Rightarrow>
        let r = r0 / 255; g = g0 / 255; b = b0 / 255;
            mx = max (max r g) b;
            mn = min (min r g) b;
            diff = mx - mn;
            h = (if diff = 0 then 0
                 else if mx = r then py_mod (60 * ((g - b) / diff) + 360) 360
                 else if mx = g then py_mod (60 * ((b - r) / diff) + 120) 360
                 else py_mod (60 * ((r - g) / diff) + 240) 360);
            s = (if mx = 0 then 0 else diff / mx);
            v = mx
        in (h, s, v))"

subsection \<open>\<^verbatim>\<open>rgb_to_hsv\<close> in double precision\<close>

text \<open>
  A finite double is a real number \<open>m * 2\<^sup>q\<close> with an integer \<open>m\<close> of at most 53 bits.
  \<open>floor_log2 x\<close> is the exponent \<open>e\<close> with \<open>2\<^sup>e \<le> x < 2\<^sup>e\<^sup>+\<^sup>1\<close> of a positive \<open>x\<close>,
  computed from the bit length of an integer.
\<close>

definition floor_log2 :: "real \<Rightarrow> int" where
  "floor_log2 x = (if 1 \<le> x then bitlen \<lfloor>x\<rfloor> - 1 else - bitlen (\<lceil>1 / x\<rceil> - 1))"

text \<open>Rounding to the nearest integer, a tie going to the even one.\<close>

definition round_half_even :: "real \<Rightarrow> int" where
  "round_half_even z =
     (let f = \<lfloor>z\<rfloor>; d = z - of_int f in
      if d < 1 / 2 then f
      else if d > 1 / 2 then f + 1
      else if even f then f else f + 1)"

text \<open>
  The exponent of the binade of \<open>x\<close>; below \<open>2\<^sup>-\<^sup>1\<^sup>0\<^sup>2\<^sup>2\<close> the doubles are subnormal and
  keep the spacing \<open>2\<^sup>-\<^sup>1\<^sup>0\<^sup>7\<^sup>4\<close>.
\<close>

definition binade :: "real \<Rightarrow> int" where
  "binade x = max (floor_log2 \<bar>x\<bar>) (- 1022)"

text \<open>
  The result of an arithmetic operation on doubles is the exact result rounded to the
  nearest double, ties to even: the nearest multiple of the spacing \<open>2\<^sup>e\<^sup>-\<^sup>5\<^sup>2\<close> of the
  binade. Overflow to infinity and NaN are left out: on channels in \<open>[0, 255]\<close> no
  operation of \<^verbatim>\<open>rgb_to_hsv\<close> leaves the finite range, and the division by \<open>diff\<close> is
  guarded.
\<close>

definition round_double :: "real \<Rightarrow> real" where
  "round_double x =
     (if x = 0 then 0
      else of_int (round_half_even (x / 2 powi (binade x - 52))) * 2 powi (binade x - 52))"

text \<open>The four operations of the source on doubles.\<close>

definition f_add :: "real \<Rightarrow> real \<Rightarrow> real" where
  "f_add x y = round_double (x + y)"

definition f_sub :: "real \<Rightarrow> real \<Rightarrow> real" where
  "f_sub x y = round_double (x - y)"

definition f_mul :: "real \<Rightarrow> real \<Rightarrow> real" where
  "f_mul x y = round_double (x * y)"

definition f_div :: "real \<Rightarrow> real \<Rightarrow> real" where
  "f_div x y = round_double (x / y)"

text \<open>
  The operator \<^verbatim>\<open>%\<close> on doubles, as numpy and CPython both implement it: C's
  \<^verbatim>\<open>fmod\<close>, which is exact and takes the sign of the dividend, and, when that result is
  not zero and its sign differs from the divisor's, the divisor added to it (one rounded
  addition).
\<close>

definition c_fmod :: "real \<Rightarrow> real \<Rightarrow> real" where
  "c_fmod x m = x - m * of_int (if 0 \<le> x / m then \<lfloor>x / m\<rfloor> else \<lceil>x / m\<rceil>)"

definition py_mod_double :: "real \<Rightarrow> real \<Rightarrow> real" where
  "py_mod_double x m =
     (let r = c_fmod x m in
      if r \<noteq> 0 \<and> ((m < 0) \<noteq> (r < 0)) then f_add r m else r)"

text \<open>\<^verbatim>\<open>rgb_to_hsv\<close> with every operation in double arithmetic, operation by operation.\<close>

definition rgb_to_hsv_double :: "rgb \<Rightarrow> hsv" where
  "rgb_to_hsv_double rgb =
     (case rgb of (r0, g0, b0) \<Rightarrow>
        let r = f_div r0 255; g = f_div g0 255; b = f_div b0 255;
            mx = max (max r g) b;
            mn = min (min r g) b;
            diff = f_sub mx mn;
            h = (if diff = 0 then 0
                 else if mx = r then py_mod_double (f_add (f_mul 60 (f_div (f_sub g b) diff)) 360) 360
                 else if mx = g then py_mod_double (f_add (f_mul 60 (f_div (f_sub b r) diff)) 120) 360
                 else py_mod_double (f_add (f_mul 60 (f_div (f_sub r g) diff)) 240) 360);
            s = (if mx = 0 then 0 else f_div diff mx);
            v = mx
        in (h, s, v))"

text \<open>
  The hue as the specification words it, in the same arithmetic: the red sector is
  \<^verbatim>\<open>60*((g-b)/diff) mod 360\<close>, without the \<^verbatim>\<open>+ 360\<close> of the source; the green and blue
  sectors and the achromatic case are those of the source.
\<close>

definition claimed_hue_double :: "rgb \<Rightarrow> real" where
  "claimed_hue_double rgb =
     (case rgb of (r0, g0, b0) \<Rightarrow>
        let r = f_div r0 255; g = f_div g0 255; b = f_div b0 255;
            mx = max (max r g) b;
            mn = min (min r g) b;
            diff = f_sub mx mn
        in if diff = 0 then 0
           else if mx = r then py_mod_double (f_mul 60 (f_div (f_sub g b) diff)) 360
           else if mx = g then py_mod_double (f_add (f_mul 60 (f_div (f_sub b r) diff)) 120) 360
           else py_mod_double (f_add (f_mul 60 (f_div (f_sub r g) diff)) 240) 360)"

subsection \<open>\<^verbatim>\<open>analyze_colors\<close>\<close>

text \<open>Python's \<^verbatim>\<open>sum\<close>: a left-to-right accumulation starting at 0.\<close>

definition py_sum :: "real list \<Rightarrow> real" where
  "py_sum xs = foldl (+) 0 xs"

text \<open>
  The loop over \<^verbatim>\<open>zip(palette, weights)\<close> appends one product to each of the three
  lists; \<open>zip\<close> stops at the shorter argument, as Python's does.
\<close>

fun analyze_loop ::
  "(rgb \<times> real) list \<Rightarrow> real list \<times> real list \<times> real list \<Rightarrow> real list \<times> real list \<times> real list"
where
  "analyze_loop [] acc = acc"
| "analyze_loop ((color, w) # rest) (hues, sats, vals) =
     (case rgb_to_hsv color of (h, s, v) \<Rightarrow>
        analyze_loop rest (hues @ [h * w], sats @ [s * w], vals @ [v * w]))"

definition analyze_colors :: "rgb list \<Rightarrow> real list \<Rightarrow> hsv" where
  "analyze_colors palette weights =
     (case analyze_loop (zip palette weights) ([], [], []) of
        (hues, sats, vals) \<Rightarrow> (py_sum hues, py_sum sats, py_sum vals))"

subsection \<open>\<^verbatim>\<open>categorize_color\<close>\<close>

definition categorize_color :: "real \<Rightarrow> real \<Rightarrow> real \<Rightarrow> string" where
  "categorize_color hue sat val =
     (let warm = (hue \<le> 60 \<or> hue \<ge> 300) in
      if warm \<and> sat < 0.5 \<and> 0.3 < val \<and> val < 0.7 then ''earthy''
      else if sat > 0.6 \<and> val > 0.7 then ''bright''
      else if sat < 0.3 \<and> val < 0.5 then ''muted''
      else if warm then ''warm''
      else ''cool'')"


subsection \<open>The analysis loop of \<^verbatim>\<open>main\<close>\<close>

text \<open>
  One element of \<^verbatim>\<open>image_categorized\<close>: the tuple
  \<^verbatim>\<open>(img_file, category, avg_hue, avg_sat, avg_val)\<close>.
\<close>

record image_record =
  img_file :: string
  category :: string
  avg_hue :: real
  avg_sat :: real
  avg_val :: real

text \<open>
  \<^verbatim>\<open>extract_palette\<close> consists of calls into PIL, numpy and scikit-learn only (decoding,
  resizing, k-means); it is a parameter of the model: a function from the file name to the
  palette and the weights, or to the exception it raises. The loop has no
  \<^verbatim>\<open>try\<close>: an exception leaves it at once. The result \<open>Inl (e, rs)\<close> is that exception
  together with the records appended before it; \<open>Inr rs\<close> is the completed list.
  The \<^verbatim>\<open>print\<close> lines of \<^verbatim>\<open>main\<close> are left out.
\<close>

type_synonym extractor = "string \<Rightarrow> py_error + (rgb list \<times> real list)"

fun analyze_images ::
  "extractor \<Rightarrow> string list \<Rightarrow> image_record list
     \<Rightarrow> (py_error \<times> image_record list) + image_record list"
where
  "analyze_images extract_palette [] image_categorized = Inr image_categorized"
| "analyze_images extract_palette (file # rest) image_categorized =
     (case extract_palette file of
        Inl e \<Rightarrow> Inl (e, image_categorized)
      | Inr (palette, weights) \<Rightarrow>
          (case analyze_colors palette weights of (h, s, v) \<Rightarrow>
             analyze_images extract_palette rest
               (image_categorized @
                  [\<lparr>img_file = file, category = categorize_color h s v,
                    avg_hue = h, avg_sat = s, avg_val = v\<rparr>])))"

subsection \<open>The sort step of \<^verbatim>\<open>main\<close>\<close>

text \<open>Python's \<^verbatim>\<open>list.index\<close>: the first position of the element, or \<^verbatim>\<open>ValueError\<close>.\<close>

fun list_index :: "'a list \<Rightarrow> 'a \<Rightarrow> py_error + nat" where
  "list_index [] x = Inl ValueError"
| "list_index (y # ys) x =
     (if y = x then Inr 0
      else (case list_index ys x of Inl e \<Rightarrow> Inl e | Inr i \<Rightarrow> Inr (Suc i)))"

text \<open>The key function \<^verbatim>\<open>lambda x: (categories_order.index(x[1]), x[2])\<close>.\<close>

definition sort_key_of :: "image_record \<Rightarrow> py_error + (nat \<times> real)" where
  "sort_key_of x =
     (case list_index categories_order (category x) of
        Inl e \<Rightarrow> Inl e
      | Inr i \<Rightarrow> Inr (i, avg_hue x))"

text \<open>
  \<^verbatim>\<open>list.sort(key=...)\<close> first computes the key of every element, in order (the first
  exception of the key function leaves the sort), and then sorts the elements by their
  keys alone with a stable sort. Key tuples compare lexicographically, which is the order
  of \<open>nat \<times> real\<close> here; \<open>sort_key\<close> is the library's stable insertion sort.
\<close>

fun compute_keys :: "image_record list \<Rightarrow> py_error + (nat \<times> real) list" where
  "compute_keys [] = Inr []"
| "compute_keys (x # xs) =
     (case sort_key_of x of
        Inl e \<Rightarrow> Inl e
      | Inr k \<Rightarrow> (case compute_keys xs of Inl e \<Rightarrow> Inl e | Inr ks \<Rightarrow> Inr (k # ks)))"

definition sort_categorized :: "image_record list \<Rightarrow> py_error + image_record list" where
  "sort_categorized image_categorized =
     (case compute_keys image_categorized of
        Inl e \<Rightarrow> Inl e
      | Inr ks \<Rightarrow> Inr (map snd (sort_key fst (zip ks image_categorized))))"

text \<open>
  The position of a category in the priority list, for stating the order: the number of
  entries before its first occurrence.
\<close>

definition category_position :: "string \<Rightarrow> nat" where
  "category_position c = length (takeWhile (\<lambda>x. x \<noteq> c) categories_order)"

subsection \<open>The rename loop of \<^verbatim>\<open>main\<close>\<close>

text \<open>\<^verbatim>\<open>str(i)\<close> for a natural number: its decimal digits.\<close>

definition digit_char :: "nat \<Rightarrow> char" where
  "digit_char d = ''0123456789'' ! d"

fun str_of_nat :: "nat \<Rightarrow> string" where
  "str_of_nat n =
     (if n < 10 then [digit_char n] else str_of_nat (n div 10) @ [digit_char (n mod 10)])"

declare str_of_nat.simps [simp del]

text \<open>
  \<^verbatim>\<open>os.path.splitext\<close> on a bare file name (a name from \<^verbatim>\<open>os.listdir\<close> holds no
  directory separator): the extension starts at the last dot, unless only dots precede it.
  \<open>rfind\<close> is \<^verbatim>\<open>str.rfind\<close>, with \<open>None\<close> for \<^verbatim>\<open>-1\<close>.
\<close>

fun rfind :: "char \<Rightarrow> string \<Rightarrow> nat option" where
  "rfind c [] = None"
| "rfind c (x # xs) =
     (case rfind c xs of
        Some i \<Rightarrow> Some (Suc i)
      | None \<Rightarrow> if x = c then Some 0 else None)"

definition splitext :: "string \<Rightarrow> string \<times> string" where
  "splitext p =
     (case rfind (CHR ''.'') p of
        None \<Rightarrow> (p, [])
      | Some dotIndex \<Rightarrow>
          if list_ex (\<lambda>c. c \<noteq> CHR ''.'') (take dotIndex p)
          then (take dotIndex p, drop dotIndex p)
          else (p, []))"

text \<open>
  The folder is a map from file names to file contents; a path
  \<^verbatim>\<open>os.path.join(folder_path, name)\<close> is the name itself. \<^verbatim>\<open>os.rename\<close> is the operating
  system's; the loop takes it as a parameter. Two instances follow Python's documentation
  of \<^verbatim>\<open>os.rename\<close>: on Unix an existing destination file is replaced silently, on
  Windows an existing destination raises \<^verbatim>\<open>FileExistsError\<close>.
\<close>

type_synonym 'c folder = "string \<rightharpoonup> 'c"

type_synonym 'c renamer = "'c folder \<Rightarrow> string \<Rightarrow> string \<Rightarrow> py_error + 'c folder"

definition posix_rename :: "'c renamer" where
  "posix_rename fs src dst =
     (case fs src of
        None \<Rightarrow> Inl FileNotFoundError
      | Some c \<Rightarrow> Inr ((fs(src := None))(dst \<mapsto> c)))"


text \<open>
  The loop \<^verbatim>\<open>for i, (filename, ...) in enumerate(image_categorized, start=1)\<close>. It has no
  \<^verbatim>\<open>try\<close> and no test of the destination: what \<^verbatim>\<open>os.rename\<close> raises leaves the loop,
  with the folder as the earlier renames left it (\<open>Inl (e, fs)\<close>).
\<close>

definition new_name :: "nat \<Rightarrow> string \<Rightarrow> string" where
  "new_name i filename = str_of_nat i @ snd (splitext filename)"

fun rename_loop ::
  "'c renamer \<Rightarrow> nat \<Rightarrow> image_record list \<Rightarrow> 'c folder \<Rightarrow> (py_error \<times> 'c folder) + 'c folder"
where
  "rename_loop os_rename i [] fs = Inr fs"
| "rename_loop os_rename i (x # xs) fs =
     (case os_rename fs (img_file x) (new_name i (img_file x)) of
        Inl e \<Rightarrow> Inl (e, fs)
      | Inr fs' \<Rightarrow> rename_loop os_rename (Suc i) xs fs')"

subsection \<open>\<^verbatim>\<open>main\<close>\<close>

text \<open>
  \<open>images\<close> is the listing of the folder already filtered by extension. An exception in
  the analysis loop or in the sort leaves \<^verbatim>\<open>main\<close> before any rename, with the folder
  untouched.
\<close>

definition main :: "extractor \<Rightarrow> 'c renamer \<Rightarrow> string list \<Rightarrow> 'c folder \<Rightarrow> (py_error \<times> 'c folder) + 'c folder" where
  "main extract_palette os_rename images fs =
     (case analyze_images extract_palette images [] of
        Inl (e, partial) \<Rightarrow> Inl (e, fs)
      | Inr image_categorized \<Rightarrow>
          (case sort_categorized image_categorized of
             Inl e \<Rightarrow> Inl (e, fs)
           | Inr ordered \<Rightarrow> rename_loop os_rename 1 ordered fs))"

section \<open>Properties of \<^verbatim>\<open>categorize_color\<close>\<close>

lemma categorize_color_cases:
  "categorize_color hue sat val \<in> set categories_order"
  by (simp add: categorize_color_def categories_order_def Let_def)

lemma categories_order_distinct: "distinct categories_order"
  by (simp add: categories_order_def)

text \<open>
  Claim C1. Category assignment is total and deterministic: for every triple with hue in
  \<open>[0, 360)\<close> and saturation and value in \<open>[0, 1]\<close>, \<^verbatim>\<open>categorize_color\<close> returns a
  result, the result is one of the five names earthy, warm, bright, cool, muted, and it is
  exactly one of them.
\<close>

theorem categorize_color_total:
  assumes "0 \<le> hue" and "hue < 360" and "0 \<le> sat" and "sat \<le> 1" and "0 \<le> val" and "val \<le> 1"
  shows "categorize_color hue sat val \<in> {''earthy'', ''warm'', ''bright'', ''cool'', ''muted''}
       \<and> (\<exists>!c. c \<in> {''earthy'', ''warm'', ''bright'', ''cool'', ''muted''}
                \<and> categorize_color hue sat val = c)"
proof -
  have "categorize_color hue sat val \<in> set categories_order"
    by (rule categorize_color_cases)
  then have m: "categorize_color hue sat val \<in> {''earthy'', ''warm'', ''bright'', ''cool'', ''muted''}"
    by (simp add: categories_order_def)
  have u: "\<exists>!c. c \<in> {''earthy'', ''warm'', ''bright'', ''cool'', ''muted''}
                \<and> categorize_color hue sat val = c"
    using m by (intro ex1I [of _ "categorize_color hue sat val"]) simp_all
  show ?thesis by (rule conjI [OF m u])
qed

theorem categorize_color_total_witness:
  "(0::real) \<le> 30 \<and> (30::real) < 360 \<and> (0::real) \<le> 0.4 \<and> (0.4::real) \<le> 1
   \<and> (0::real) \<le> 0.5 \<and> (0.5::real) \<le> 1
   \<and> categorize_color 30 0.4 0.5 \<in> {''earthy'', ''warm'', ''bright'', ''cool'', ''muted''}
   \<and> (\<exists>!c. c \<in> {''earthy'', ''warm'', ''bright'', ''cool'', ''muted''}
            \<and> categorize_color 30 0.4 0.5 = c)"
  using categorize_color_total [of 30 "0.4" "0.5"] by simp

text \<open>
  Claim C2. \<^verbatim>\<open>categorize_color\<close> is an ordered decision list with strict thresholds. With
  \<open>isWarm = (hue \<le> 60 \<or> hue \<ge> 300)\<close> the result is earthy iff \<open>isWarm\<close>, \<open>sat < 0.5\<close> and
  \<open>0.3 < val < 0.7\<close>; otherwise bright iff \<open>sat > 0.6\<close> and \<open>val > 0.7\<close>; otherwise
  muted iff \<open>sat < 0.3\<close> and \<open>val < 0.5\<close>; otherwise warm iff \<open>isWarm\<close>; otherwise cool.
  A triple lying exactly on a threshold (\<open>sat = 0.5\<close>, \<open>val = 0.3\<close>, \<open>val = 0.7\<close>,
  \<open>sat = 0.6\<close>, \<open>sat = 0.3\<close>, \<open>val = 0.5\<close>) does not fire the rule with that threshold,
  and \<^verbatim>\<open>categorize_color(60, 0.49, 0.5)\<close> is earthy.
\<close>

theorem categorize_color_decision_list:
  fixes hue sat val :: real
  defines "isWarm \<equiv> hue \<le> 60 \<or> hue \<ge> 300"
  defines "earthy \<equiv> isWarm \<and> sat < 0.5 \<and> 0.3 < val \<and> val < 0.7"
  defines "bright \<equiv> sat > 0.6 \<and> val > 0.7"
  defines "muted \<equiv> sat < 0.3 \<and> val < 0.5"
  shows "(categorize_color hue sat val = ''earthy'' \<longleftrightarrow> earthy)
       \<and> (categorize_color hue sat val = ''bright'' \<longleftrightarrow> \<not> earthy \<and> bright)
       \<and> (categorize_color hue sat val = ''muted'' \<longleftrightarrow> \<not> earthy \<and> \<not> bright \<and> muted)
       \<and> (categorize_color hue sat val = ''warm''
            \<longleftrightarrow> \<not> earthy \<and> \<not> bright \<and> \<not> muted \<and> isWarm)
       \<and> (categorize_color hue sat val = ''cool''
            \<longleftrightarrow> \<not> earthy \<and> \<not> bright \<and> \<not> muted \<and> \<not> isWarm)
       \<and> categorize_color hue 0.5 val \<noteq> ''earthy''
       \<and> categorize_color hue sat 0.3 \<noteq> ''earthy''
       \<and> categorize_color hue sat 0.7 \<noteq> ''earthy''
       \<and> categorize_color hue 0.6 val \<noteq> ''bright''
       \<and> categorize_color hue sat 0.7 \<noteq> ''bright''
       \<and> categorize_color hue 0.3 val \<noteq> ''muted''
       \<and> categorize_color hue sat 0.5 \<noteq> ''muted''
       \<and> categorize_color 60 0.5 0.5 = ''warm''
       \<and> categorize_color 60 0.49 0.5 = ''earthy''"
  unfolding earthy_def bright_def muted_def isWarm_def
  by (simp add: categorize_color_def Let_def)

text \<open>
  Claim C3. For the input \<open>(hue = 60.0001, sat = 0.49, val = 0.5)\<close> the claim expects
  warm. The hue lies above the warm bound 60 and below 300, so the warm flag is false,
  none of the earthy, bright and muted rules fires, and the final branch returns cool.
\<close>

theorem categorize_color_above_60_cool:
  "categorize_color 60.0001 0.49 0.5 = ''cool''"
  by (simp add: categorize_color_def)

text \<open>The result at that input is not warm, against the claim as stated.\<close>

theorem categorize_color_above_60_not_warm:
  "categorize_color 60.0001 0.49 0.5 \<noteq> ''warm''"
  by (simp add: categorize_color_def)

section \<open>Properties of \<^verbatim>\<open>rgb_to_hsv\<close>\<close>

lemma py_mod_range: "0 < m \<Longrightarrow> 0 \<le> py_mod x m \<and> py_mod x m < m"
proof -
  assume m: "0 < m"
  have a: "of_int \<lfloor>x / m\<rfloor> \<le> x / m" by (rule of_int_floor_le)
  have b: "x / m < of_int \<lfloor>x / m\<rfloor> + 1" by linarith
  have "of_int \<lfloor>x / m\<rfloor> * m \<le> x"
    using a pos_le_divide_eq [OF m] by blast
  moreover have "x < (of_int \<lfloor>x / m\<rfloor> + 1) * m"
    using b pos_divide_less_eq [OF m] by blast
  ultimately show ?thesis by (simp add: py_mod_def algebra_simps)
qed

subsection \<open>Rounding to double is odd and monotone\<close>

lemma floor_log2_bounds:
  assumes "0 < x"
  shows "2 powi floor_log2 x \<le> x \<and> x < 2 powi (floor_log2 x + 1)"
proof (cases "1 \<le> x")
  case True
  then have p: "0 < \<lfloor>x\<rfloor>" by simp
  let ?k = "bitlen \<lfloor>x\<rfloor>"
  from bitlen_bounds [OF p] have b: "2 ^ nat (?k - 1) \<le> \<lfloor>x\<rfloor>" "\<lfloor>x\<rfloor> < 2 ^ nat ?k" by auto
  have k1: "1 \<le> ?k" using p by (auto simp: bitlen_alt_def)
  have fl: "floor_log2 x = ?k - 1" using True by (simp add: floor_log2_def)
  have e1: "(2::real) powi (?k - 1) = 2 ^ nat (?k - 1)" using k1 by (simp add: power_int_def)
  have e2: "(2::real) powi (?k - 1 + 1) = 2 ^ nat ?k" using k1 by (simp add: power_int_def)
  have "real_of_int (2 ^ nat (?k - 1)) \<le> real_of_int \<lfloor>x\<rfloor>"
    using b(1) by (rule of_int_le_iff [THEN iffD2])
  then have "(2::real) ^ nat (?k - 1) \<le> real_of_int \<lfloor>x\<rfloor>" by simp
  moreover have "real_of_int \<lfloor>x\<rfloor> \<le> x" by simp
  ultimately have lo: "(2::real) ^ nat (?k - 1) \<le> x" by linarith
  have "\<lfloor>x\<rfloor> + 1 \<le> 2 ^ nat ?k" using b(2) by simp
  then have "real_of_int (\<lfloor>x\<rfloor> + 1) \<le> real_of_int (2 ^ nat ?k)"
    by (rule of_int_le_iff [THEN iffD2])
  then have "real_of_int \<lfloor>x\<rfloor> + 1 \<le> 2 ^ nat ?k" by simp
  moreover have "x < real_of_int \<lfloor>x\<rfloor> + 1" by linarith
  ultimately have hi: "x < 2 ^ nat ?k" by linarith
  from lo hi show ?thesis unfolding fl e1 e2 by simp
next
  case False
  with assms have y1: "1 < 1 / x" by simp
  let ?n = "\<lceil>1 / x\<rceil> - 1"
  let ?j = "bitlen ?n"
  have n: "0 < ?n" using y1 by linarith
  from bitlen_bounds [OF n] have b: "2 ^ nat (?j - 1) \<le> ?n" "?n < 2 ^ nat ?j" by auto
  have j1: "1 \<le> ?j" using n by (auto simp: bitlen_alt_def)
  have fl: "floor_log2 x = - ?j" using False by (simp add: floor_log2_def)
  have e1: "(2::real) powi (- ?j) = 1 / 2 ^ nat ?j"
    using j1 by (simp add: power_int_def field_simps)
  have e2: "(2::real) powi (- ?j + 1) = 1 / 2 ^ nat (?j - 1)"
    using j1 by (simp add: power_int_def field_simps)
  have "real_of_int (2 ^ nat (?j - 1)) \<le> real_of_int ?n"
    using b(1) by (rule of_int_le_iff [THEN iffD2])
  then have "(2::real) ^ nat (?j - 1) \<le> real_of_int ?n" by simp
  moreover have "real_of_int ?n < 1 / x" by linarith
  ultimately have "2 ^ nat (?j - 1) < 1 / x" by linarith
  then have hi: "x < 1 / 2 ^ nat (?j - 1)" using assms by (simp add: field_simps)
  have "?n + 1 \<le> 2 ^ nat ?j" using b(2) by simp
  then have "real_of_int (?n + 1) \<le> real_of_int (2 ^ nat ?j)"
    by (rule of_int_le_iff [THEN iffD2])
  then have "real_of_int ?n + 1 \<le> 2 ^ nat ?j" by simp
  moreover have "1 / x \<le> real_of_int ?n + 1" by linarith
  ultimately have "1 / x \<le> 2 ^ nat ?j" by linarith
  then have lo: "1 / 2 ^ nat ?j \<le> x" using assms by (simp add: field_simps)
  from lo hi show ?thesis unfolding fl e1 e2 by simp
qed

lemma floor_log2_unique:
  assumes "0 < x" and "2 powi e \<le> x" and "x < 2 powi (e + 1)"
  shows "floor_log2 x = e"
proof (rule ccontr)
  assume ne: "floor_log2 x \<noteq> e"
  let ?f = "floor_log2 x"
  from floor_log2_bounds [OF assms(1)] have b: "2 powi ?f \<le> x" "x < 2 powi (?f + 1)" by auto
  show False
  proof (cases "?f < e")
    case True
    then have "?f + 1 \<le> e" by simp
    then have "(2::real) powi (?f + 1) \<le> 2 powi e" by (rule power_int_increasing) simp
    with b(2) assms(2) show False by linarith
  next
    case False
    with ne have "e + 1 \<le> ?f" by simp
    then have "(2::real) powi (e + 1) \<le> 2 powi ?f" by (rule power_int_increasing) simp
    with b(1) assms(3) show False by linarith
  qed
qed

lemma floor_log2_mono:
  assumes "0 < x" and "x \<le> y"
  shows "floor_log2 x \<le> floor_log2 y"
proof (rule ccontr)
  assume "\<not> floor_log2 x \<le> floor_log2 y"
  then have "floor_log2 y + 1 \<le> floor_log2 x" by simp
  then have "(2::real) powi (floor_log2 y + 1) \<le> 2 powi floor_log2 x"
    by (rule power_int_increasing) simp
  moreover from assms have "0 < y" by simp
  ultimately show False
    using floor_log2_bounds [OF assms(1)] floor_log2_bounds [OF \<open>0 < y\<close>] assms(2) by linarith
qed


lemma round_half_even_of_int: "round_half_even (of_int n) = n"
  by (simp add: round_half_even_def)

lemma round_half_even_low: "z - of_int \<lfloor>z\<rfloor> < 1 / 2 \<Longrightarrow> round_half_even z = \<lfloor>z\<rfloor>"
  by (simp add: round_half_even_def Let_def)

lemma round_half_even_high: "z - of_int \<lfloor>z\<rfloor> > 1 / 2 \<Longrightarrow> round_half_even z = \<lfloor>z\<rfloor> + 1"
  by (simp add: round_half_even_def Let_def)

lemma round_half_even_tie:
  "z - of_int \<lfloor>z\<rfloor> = 1 / 2 \<Longrightarrow> round_half_even z = (if even \<lfloor>z\<rfloor> then \<lfloor>z\<rfloor> else \<lfloor>z\<rfloor> + 1)"
  by (simp add: round_half_even_def Let_def)

lemma round_half_even_between:
  "\<lfloor>z\<rfloor> \<le> round_half_even z \<and> round_half_even z \<le> \<lfloor>z\<rfloor> + 1"
proof -
  consider "z - of_int \<lfloor>z\<rfloor> < 1 / 2" | "z - of_int \<lfloor>z\<rfloor> > 1 / 2" | "z - of_int \<lfloor>z\<rfloor> = 1 / 2"
    by linarith
  then show ?thesis
  proof cases
    case 1
    then show ?thesis by (simp only: round_half_even_low) simp
  next
    case 2
    then show ?thesis by (simp only: round_half_even_high) simp
  next
    case 3
    then show ?thesis by (simp only: round_half_even_tie) simp
  qed
qed

lemma round_half_even_mono:
  assumes "z \<le> w"
  shows "round_half_even z \<le> round_half_even w"
proof (cases "\<lfloor>z\<rfloor> = \<lfloor>w\<rfloor>")
  case same: True
  show ?thesis
  proof (cases "z = w")
    case True
    then show ?thesis by simp
  next
    case False
    with assms have lt: "z < w" by simp
    show ?thesis
    proof (cases "z - of_int \<lfloor>z\<rfloor> < 1 / 2")
      case True
      then have "round_half_even z = \<lfloor>z\<rfloor>" by (rule round_half_even_low)
      with round_half_even_between [of w] same show ?thesis by simp
    next
      case False
      with lt same have "w - of_int \<lfloor>w\<rfloor> > 1 / 2" by simp
      then have "round_half_even w = \<lfloor>w\<rfloor> + 1" by (rule round_half_even_high)
      with round_half_even_between [of z] same show ?thesis by simp
    qed
  qed
next
  case False
  moreover from assms have "\<lfloor>z\<rfloor> \<le> \<lfloor>w\<rfloor>" by (rule floor_mono)
  ultimately have "\<lfloor>z\<rfloor> + 1 \<le> \<lfloor>w\<rfloor>" by simp
  with round_half_even_between [of z] round_half_even_between [of w] show ?thesis by linarith
qed

lemma round_half_even_minus: "round_half_even (- z) = - round_half_even z"
proof (cases "z = of_int \<lfloor>z\<rfloor>")
  case True
  then have "round_half_even z = \<lfloor>z\<rfloor>" by (metis round_half_even_of_int)
  moreover from True have "- z = of_int (- \<lfloor>z\<rfloor>)" by simp
  then have "round_half_even (- z) = - \<lfloor>z\<rfloor>" by (metis round_half_even_of_int)
  ultimately show ?thesis by simp
next
  case False
  then have "\<lceil>z\<rceil> = \<lfloor>z\<rfloor> + 1" by (simp add: ceiling_altdef)
  moreover have "\<lfloor>- z\<rfloor> = - \<lceil>z\<rceil>" by (simp add: ceiling_def)
  ultimately have fl: "\<lfloor>- z\<rfloor> = - \<lfloor>z\<rfloor> - 1" by simp
  have d: "- z - of_int \<lfloor>- z\<rfloor> = 1 - (z - of_int \<lfloor>z\<rfloor>)" by (simp add: fl)
  consider "z - of_int \<lfloor>z\<rfloor> < 1 / 2" | "z - of_int \<lfloor>z\<rfloor> > 1 / 2" | "z - of_int \<lfloor>z\<rfloor> = 1 / 2"
    by linarith
  then show ?thesis
  proof cases
    case 1
    then have a: "round_half_even z = \<lfloor>z\<rfloor>" by (rule round_half_even_low)
    from 1 d have "- z - of_int \<lfloor>- z\<rfloor> > 1 / 2" by linarith
    then have "round_half_even (- z) = \<lfloor>- z\<rfloor> + 1" by (rule round_half_even_high)
    with a fl show ?thesis by simp
  next
    case 2
    then have a: "round_half_even z = \<lfloor>z\<rfloor> + 1" by (rule round_half_even_high)
    from 2 d have "- z - of_int \<lfloor>- z\<rfloor> < 1 / 2" by linarith
    then have "round_half_even (- z) = \<lfloor>- z\<rfloor>" by (rule round_half_even_low)
    with a fl show ?thesis by simp
  next
    case 3
    then have a: "round_half_even z = (if even \<lfloor>z\<rfloor> then \<lfloor>z\<rfloor> else \<lfloor>z\<rfloor> + 1)"
      by (rule round_half_even_tie)
    from 3 d have "- z - of_int \<lfloor>- z\<rfloor> = 1 / 2" by linarith
    then have b: "round_half_even (- z) = (if even \<lfloor>- z\<rfloor> then \<lfloor>- z\<rfloor> else \<lfloor>- z\<rfloor> + 1)"
      by (rule round_half_even_tie)
    have "even \<lfloor>- z\<rfloor> \<longleftrightarrow> odd \<lfloor>z\<rfloor>" unfolding fl by simp
    with a b fl show ?thesis by simp
  qed
qed


lemma round_double_zero: "round_double 0 = 0"
  by (simp add: round_double_def)

lemma binade_minus: "binade (- x) = binade x"
  by (simp add: binade_def)

lemma round_double_minus: "round_double (- x) = - round_double x"
proof (cases "x = 0")
  case True
  then show ?thesis by (simp add: round_double_zero)
next
  case False
  have "- x / 2 powi (binade x - 52) = - (x / 2 powi (binade x - 52))" by simp
  then have "round_half_even (- x / 2 powi (binade x - 52))
             = - round_half_even (x / 2 powi (binade x - 52))"
    by (simp only: round_half_even_minus)
  with False show ?thesis by (simp add: round_double_def binade_minus)
qed

lemma binade_eq:
  assumes "x \<noteq> 0" and "- 1022 \<le> e" and "2 powi e \<le> \<bar>x\<bar>" and "\<bar>x\<bar> < 2 powi (e + 1)"
  shows "binade x = e"
proof -
  from assms(1) have "0 < \<bar>x\<bar>" by simp
  from floor_log2_unique [OF this assms(3) assms(4)] assms(2) show ?thesis
    by (simp add: binade_def)
qed

lemma round_double_eval:
  assumes "x \<noteq> 0" and "- 1022 \<le> e" and "2 powi e \<le> \<bar>x\<bar>" and "\<bar>x\<bar> < 2 powi (e + 1)"
  shows "round_double x = of_int (round_half_even (x / 2 powi (e - 52))) * 2 powi (e - 52)"
  using assms(1) by (simp add: round_double_def binade_eq [OF assms])

lemma round_double_nonneg:
  assumes "0 \<le> x"
  shows "0 \<le> round_double x"
proof (cases "x = 0")
  case True
  then show ?thesis by (simp add: round_double_zero)
next
  case False
  let ?q = "(2::real) powi (binade x - 52)"
  have q: "0 < ?q" by simp
  with assms have "0 \<le> x / ?q" by simp
  then have "round_half_even 0 \<le> round_half_even (x / ?q)" by (rule round_half_even_mono)
  moreover have "round_half_even 0 = 0" using round_half_even_of_int [of 0] by simp
  ultimately have "0 \<le> round_half_even (x / ?q)" by simp
  then have "0 \<le> real_of_int (round_half_even (x / ?q)) * ?q" using q by simp
  with False show ?thesis by (simp add: round_double_def)
qed

lemma quantum_scale:
  fixes e :: int and N :: int
  assumes "N = 2 ^ n"
  shows "real_of_int N * 2 powi (e - int n) = 2 powi e"
proof -
  have "real_of_int N = 2 powi (int n)" using assms by simp
  then have "real_of_int N * 2 powi (e - int n) = 2 powi (int n) * 2 powi (e - int n)" by simp
  also have "\<dots> = (2::real) powi (int n + (e - int n))"
    by (rule power_int_add [symmetric]) simp
  also have "int n + (e - int n) = e" by simp
  finally show ?thesis .
qed

lemma round_double_upper:
  assumes "0 < x"
  shows "round_double x \<le> 2 powi (binade x + 1)"
proof -
  let ?e = "binade x"
  let ?q = "(2::real) powi (?e - 52)"
  define N :: int where "N = 2 ^ 53"
  have q: "0 < ?q" by simp
  have sc: "real_of_int N * ?q = 2 powi (?e + 1)"
    using quantum_scale [of N 53 "?e + 1"] N_def by simp
  have "floor_log2 x + 1 \<le> ?e + 1" using assms by (simp add: binade_def)
  then have "(2::real) powi (floor_log2 x + 1) \<le> 2 powi (?e + 1)"
    by (rule power_int_increasing) simp
  with floor_log2_bounds [OF assms] have "x \<le> 2 powi (?e + 1)" by linarith
  then have "x \<le> real_of_int N * ?q" by (simp only: sc)
  then have "x / ?q \<le> real_of_int N" using q by (simp add: pos_divide_le_eq)
  then have "round_half_even (x / ?q) \<le> round_half_even (real_of_int N)"
    by (rule round_half_even_mono)
  then have "round_half_even (x / ?q) \<le> N" by (simp only: round_half_even_of_int)
  then have "real_of_int (round_half_even (x / ?q)) \<le> real_of_int N"
    by (rule of_int_le_iff [THEN iffD2])
  then have "real_of_int (round_half_even (x / ?q)) * ?q \<le> real_of_int N * ?q"
    using q by (simp only: mult_le_cancel_right_pos)
  then have "real_of_int (round_half_even (x / ?q)) * ?q \<le> 2 powi (?e + 1)" by (simp only: sc)
  then show ?thesis using assms by (simp add: round_double_def)
qed

lemma round_double_lower:
  assumes "0 < x" and "- 1022 < binade x"
  shows "2 powi (binade x) \<le> round_double x"
proof -
  let ?e = "binade x"
  let ?q = "(2::real) powi (?e - 52)"
  define N :: int where "N = 2 ^ 52"
  have q: "0 < ?q" by simp
  have sc: "real_of_int N * ?q = 2 powi ?e"
    using quantum_scale [of N 52 ?e] N_def by simp
  from assms have "?e = floor_log2 x" by (simp add: binade_def max_def split: if_splits)
  with floor_log2_bounds [OF assms(1)] have "2 powi ?e \<le> x" by simp
  then have "real_of_int N * ?q \<le> x" by (simp only: sc)
  then have "real_of_int N \<le> x / ?q" using q by (simp add: pos_le_divide_eq)
  then have "round_half_even (real_of_int N) \<le> round_half_even (x / ?q)"
    by (rule round_half_even_mono)
  then have "N \<le> round_half_even (x / ?q)" by (simp only: round_half_even_of_int)
  then have "real_of_int N \<le> real_of_int (round_half_even (x / ?q))"
    by (rule of_int_le_iff [THEN iffD2])
  then have "real_of_int N * ?q \<le> real_of_int (round_half_even (x / ?q)) * ?q"
    using q by (simp only: mult_le_cancel_right_pos)
  then have "2 powi ?e \<le> real_of_int (round_half_even (x / ?q)) * ?q" by (simp only: sc)
  then show ?thesis using assms by (simp add: round_double_def)
qed

lemma round_double_mono_pos:
  assumes "0 < x" and "x \<le> y"
  shows "round_double x \<le> round_double y"
proof -
  from assms have y: "0 < y" by simp
  have "floor_log2 x \<le> floor_log2 y" using assms by (rule floor_log2_mono)
  then have le: "binade x \<le> binade y" using assms y by (simp add: binade_def)
  show ?thesis
  proof (cases "binade x = binade y")
    case True
    let ?q = "(2::real) powi (binade y - 52)"
    have q: "0 < ?q" by simp
    from assms(2) have "x / ?q \<le> y / ?q" using q by (simp add: divide_right_mono)
    then have "round_half_even (x / ?q) \<le> round_half_even (y / ?q)"
      by (rule round_half_even_mono)
    then have "real_of_int (round_half_even (x / ?q)) \<le> real_of_int (round_half_even (y / ?q))"
      by (rule of_int_le_iff [THEN iffD2])
    then have "real_of_int (round_half_even (x / ?q)) * ?q \<le> real_of_int (round_half_even (y / ?q)) * ?q"
      using q by (simp only: mult_le_cancel_right_pos)
    with True assms y show ?thesis by (simp add: round_double_def)
  next
    case False
    with le have lt: "binade x + 1 \<le> binade y" by simp
    then have "(2::real) powi (binade x + 1) \<le> 2 powi (binade y)"
      by (rule power_int_increasing) simp
    moreover have "- 1022 \<le> binade x" by (simp add: binade_def)
    with lt have "- 1022 < binade y" by simp
    from round_double_lower [OF y this] have "2 powi (binade y) \<le> round_double y" .
    moreover note round_double_upper [OF assms(1)]
    ultimately show ?thesis by linarith
  qed
qed

lemma round_double_mono:
  assumes "x \<le> y"
  shows "round_double x \<le> round_double y"
proof -
  consider "0 < x" | "x \<le> 0" "0 \<le> y" | "y < 0" by linarith
  then show ?thesis
  proof cases
    case 1
    then show ?thesis using assms by (rule round_double_mono_pos)
  next
    case 2
    from 2(1) have "0 \<le> - x" by simp
    then have "0 \<le> round_double (- x)" by (rule round_double_nonneg)
    then have "round_double x \<le> 0" by (simp add: round_double_minus)
    moreover from 2(2) have "0 \<le> round_double y" by (rule round_double_nonneg)
    ultimately show ?thesis by linarith
  next
    case 3
    then have "0 < - y" by simp
    moreover from assms have "- y \<le> - x" by simp
    ultimately have "round_double (- y) \<le> round_double (- x)" by (rule round_double_mono_pos)
    then show ?thesis by (simp add: round_double_minus)
  qed
qed


lemma rd_1: "round_double 1 = 1"
  using round_double_eval [of 1 0] by (simp add: round_half_even_def)

lemma rd_60: "round_double 60 = 60"
  using round_double_eval [of 60 5] by (simp add: round_half_even_def)

lemma rd_120: "round_double 120 = 120"
  using round_double_eval [of 120 6] by (simp add: round_half_even_def)

lemma rd_180: "round_double 180 = 180"
  using round_double_eval [of 180 7] by (simp add: round_half_even_def)

lemma rd_240: "round_double 240 = 240"
  using round_double_eval [of 240 7] by (simp add: round_half_even_def)

lemma rd_300: "round_double 300 = 300"
  using round_double_eval [of 300 8] by (simp add: round_half_even_def)

lemma rd_360: "round_double 360 = 360"
  using round_double_eval [of 360 8] by (simp add: round_half_even_def)

lemma rd_420: "round_double 420 = 420"
  using round_double_eval [of 420 8] by (simp add: round_half_even_def)

lemma rd_tiny: "round_double (1 / (255 * 2 ^ 50)) = 282578800148737 / 2 ^ 106"
  using round_double_eval [of "1 / (255 * 2 ^ 50)" "-58"] by (simp add: round_half_even_def)

lemma rd_tiny_fix: "round_double (282578800148737 / 2 ^ 106) = 282578800148737 / 2 ^ 106"
  using round_double_eval [of "282578800148737 / 2 ^ 106" "-58"] by (simp add: round_half_even_def)

lemma rd_tiny60: "round_double (60 * (282578800148737 / 2 ^ 106)) = 60 * (282578800148737 / 2 ^ 106)"
  using round_double_eval [of "60 * (282578800148737 / 2 ^ 106)" "-53"] by (simp add: round_half_even_def)

lemma rd_near360: "round_double (360 - 60 * (282578800148737 / 2 ^ 106)) = 360"
  using round_double_eval [of "360 - 60 * (282578800148737 / 2 ^ 106)" 8] by (simp add: round_half_even_def)


lemma py_mod_double_nonneg:
  assumes "0 \<le> y" and "0 < m"
  shows "py_mod_double y m = py_mod y m"
proof -
  from assms have "0 \<le> y / m" by simp
  then have c: "c_fmod y m = py_mod y m" by (simp add: c_fmod_def py_mod_def)
  from py_mod_range [OF assms(2), of y] have "\<not> py_mod y m < 0" by simp
  with assms(2) c show ?thesis by (simp add: py_mod_double_def Let_def)
qed

lemma py_mod_double_range:
  assumes "0 \<le> y" and "0 < m"
  shows "0 \<le> py_mod_double y m \<and> py_mod_double y m < m"
  using py_mod_range [OF assms(2), of y] by (simp add: py_mod_double_nonneg [OF assms])

lemma py_mod_double_small:
  assumes "0 \<le> y" and "y < m"
  shows "py_mod_double y m = y"
proof -
  from assms have m: "0 < m" by simp
  from assms have "\<lfloor>y / m\<rfloor> = 0" by (simp add: floor_eq_iff)
  then have "py_mod y m = y" by (simp add: py_mod_def)
  with py_mod_double_nonneg [OF assms(1) m] show ?thesis by simp
qed

lemma rd_m1: "round_double (- 1) = - 1"
  using round_double_minus [of 1] by (simp add: rd_1)

lemma rd_m60: "round_double (- 60) = - 60"
  using round_double_minus [of 60] by (simp add: rd_60)

lemma sector_bounds:
  assumes "\<bar>x - y\<bar> \<le> d0" and "f_sub mx mn = diff" and "mx - mn = d0" and "diff \<noteq> 0"
  shows "- 60 \<le> f_mul 60 (f_div (f_sub x y) diff) \<and> f_mul 60 (f_div (f_sub x y) diff) \<le> 60"
proof -
  from assms(1) have d0: "0 \<le> d0" by linarith
  have diff: "diff = round_double d0" using assms(2,3) by (simp add: f_sub_def)
  with d0 have "0 \<le> diff" by (simp add: round_double_nonneg)
  with assms(4) have pos: "0 < diff" by simp
  from assms(1) have "x - y \<le> d0" "- d0 \<le> x - y" by linarith+
  then have "round_double (x - y) \<le> round_double d0" "round_double (- d0) \<le> round_double (x - y)"
    by (simp_all add: round_double_mono)
  then have a: "f_sub x y \<le> diff" "- diff \<le> f_sub x y"
    by (simp_all add: f_sub_def diff round_double_minus)
  from a pos have "f_sub x y / diff \<le> 1" "- 1 \<le> f_sub x y / diff"
    by (simp_all add: pos_divide_le_eq pos_le_divide_eq)
  then have "round_double (f_sub x y / diff) \<le> round_double 1"
            "round_double (- 1) \<le> round_double (f_sub x y / diff)"
    by (simp_all only: round_double_mono)
  then have q: "f_div (f_sub x y) diff \<le> 1" "- 1 \<le> f_div (f_sub x y) diff"
    by (simp_all add: f_div_def rd_1 rd_m1)
  then have "60 * f_div (f_sub x y) diff \<le> 60" "- 60 \<le> 60 * f_div (f_sub x y) diff"
    by simp_all
  then have "round_double (60 * f_div (f_sub x y) diff) \<le> round_double 60"
            "round_double (- 60) \<le> round_double (60 * f_div (f_sub x y) diff)"
    by (simp_all only: round_double_mono)
  then show ?thesis by (simp add: f_mul_def rd_60 rd_m60)
qed

lemma sector_hue_range:
  assumes "- 60 \<le> p" and "p \<le> 60" and "off \<in> {120, 240, 360}"
  shows "off - 60 \<le> f_add p off \<and> f_add p off \<le> off + 60"
proof -
  from assms(1,2) have "round_double (off - 60) \<le> round_double (p + off)"
                       "round_double (p + off) \<le> round_double (off + 60)"
    by (simp_all add: round_double_mono)
  moreover have "round_double (off - 60) = off - 60 \<and> round_double (off + 60) = off + 60"
    using assms(3) by (auto simp: rd_60 rd_180 rd_300 rd_420)
  ultimately show ?thesis by (simp add: f_add_def)
qed


lemma sector_pos:
  assumes "x - y = mx - mn" and "f_sub mx mn = diff" and "diff \<noteq> 0"
  shows "f_mul 60 (f_div (f_sub x y) diff) = 60"
proof -
  have "f_sub x y = diff" using assms(1,2) by (simp add: f_sub_def)
  with assms(3) have "f_div (f_sub x y) diff = 1" by (simp add: f_div_def rd_1)
  then show ?thesis by (simp add: f_mul_def rd_60)
qed

lemma sector_neg:
  assumes "x - y = - (mx - mn)" and "f_sub mx mn = diff" and "diff \<noteq> 0"
  shows "f_mul 60 (f_div (f_sub x y) diff) = - 60"
proof -
  have "f_sub x y = round_double (- (mx - mn))" using assms(1) by (simp add: f_sub_def)
  also have "\<dots> = - diff" using assms(2) by (simp only: round_double_minus f_sub_def)
  finally have "f_sub x y / diff = - 1" using assms(3) by simp
  then have "f_div (f_sub x y) diff = - 1" by (simp add: f_div_def rd_m1)
  then show ?thesis by (simp add: f_mul_def rd_m60)
qed

lemma py_mod_double_420: "py_mod_double 420 360 = 60"
  by (simp add: py_mod_double_nonneg py_mod_def)

lemma sector_in_range:
  assumes "\<bar>x - y\<bar> \<le> mx - mn" and "f_sub mx mn = diff" and "diff \<noteq> 0"
    and "off \<in> {120, 240, 360}"
  shows "0 \<le> py_mod_double (f_add (f_mul 60 (f_div (f_sub x y) diff)) off) 360
       \<and> py_mod_double (f_add (f_mul 60 (f_div (f_sub x y) diff)) off) 360 < 360"
proof -
  let ?p = "f_mul 60 (f_div (f_sub x y) diff)"
  from sector_bounds [OF assms(1) assms(2) refl assms(3)] have p: "- 60 \<le> ?p" "?p \<le> 60" by simp_all
  from sector_hue_range [OF p assms(4)] assms(4) have "0 \<le> f_add ?p off" by auto
  then show ?thesis by (rule py_mod_double_range) simp
qed

lemma rgb_to_hsv_double_achromatic:
  "fst (rgb_to_hsv_double (c, c, c)) = 0 \<and> fst (snd (rgb_to_hsv_double (c, c, c))) = 0"
  by (simp add: rgb_to_hsv_double_def Let_def f_sub_def f_div_def round_double_zero)

subsection \<open>The hue\<close>

text \<open>
  Claim C5. The claim gives the red sector as \<^verbatim>\<open>60*((g-b)/diff) mod 360\<close>. The source
  adds the offset before the modulus in every sector, the red one included:
  \<^verbatim>\<open>(60*((g-b)/diff) + 360) % 360\<close>, and in double arithmetic the two differ. So, in double
  arithmetic and for every triple in \<open>[0, 255]\<^sup>3\<close>: the hue is 0 when \<open>diff = 0\<close>;
  otherwise it is \<open>(60 * ((g - b) / diff) + 360) mod 360\<close> when red attains the maximum,
  \<open>(60 * ((b - r) / diff) + 120) mod 360\<close> when green does and
  \<open>(60 * ((r - g) / diff) + 240) mod 360\<close> when blue does (where two channels share the
  maximum the source takes red before green before blue, and the formulas agree there);
  the hue lies in \<open>[0, 360)\<close>; and pure red, green and blue convert to \<open>(0, 1, 1)\<close>,
  \<open>(120, 1, 1)\<close> and \<open>(240, 1, 1)\<close>.
\<close>

theorem rgb_to_hsv_double_hue:
  fixes r0 g0 b0 :: real
  assumes "0 \<le> r0" and "r0 \<le> 255" and "0 \<le> g0" and "g0 \<le> 255" and "0 \<le> b0" and "b0 \<le> 255"
  defines "r \<equiv> f_div r0 255" and "g \<equiv> f_div g0 255" and "b \<equiv> f_div b0 255"
  defines "mx \<equiv> max (max r g) b"
  defines "diff \<equiv> f_sub (max (max r g) b) (min (min r g) b)"
  defines "hue \<equiv> fst (rgb_to_hsv_double (r0, g0, b0))"
  shows "(diff = 0 \<longrightarrow> hue = 0)
       \<and> (diff \<noteq> 0 \<and> mx = r
            \<longrightarrow> hue = py_mod_double (f_add (f_mul 60 (f_div (f_sub g b) diff)) 360) 360)
       \<and> (diff \<noteq> 0 \<and> mx = g
            \<longrightarrow> hue = py_mod_double (f_add (f_mul 60 (f_div (f_sub b r) diff)) 120) 360)
       \<and> (diff \<noteq> 0 \<and> mx = b
            \<longrightarrow> hue = py_mod_double (f_add (f_mul 60 (f_div (f_sub r g) diff)) 240) 360)
       \<and> 0 \<le> hue \<and> hue < 360
       \<and> rgb_to_hsv_double (255, 0, 0) = (0, 1, 1)
       \<and> rgb_to_hsv_double (0, 255, 0) = (120, 1, 1)
       \<and> rgb_to_hsv_double (0, 0, 255) = (240, 1, 1)"
proof -
  define mn where "mn = min (min r g) b"
  have df: "f_sub mx mn = diff" by (simp add: diff_def mx_def mn_def)
  have h: "hue = (if diff = 0 then 0
                 else if mx = r then py_mod_double (f_add (f_mul 60 (f_div (f_sub g b) diff)) 360) 360
                 else if mx = g then py_mod_double (f_add (f_mul 60 (f_div (f_sub b r) diff)) 120) 360
                 else py_mod_double (f_add (f_mul 60 (f_div (f_sub r g) diff)) 240) 360)"
    unfolding hue_def diff_def mx_def r_def g_def b_def by (simp add: rgb_to_hsv_double_def Let_def)
  have d0: "diff = 0 \<longrightarrow> hue = 0" by (simp add: h)
  have red: "hue = py_mod_double (f_add (f_mul 60 (f_div (f_sub g b) diff)) 360) 360"
    if "diff \<noteq> 0" "mx = r"
    using that by (simp add: h)
  have green: "hue = py_mod_double (f_add (f_mul 60 (f_div (f_sub b r) diff)) 120) 360"
    if "diff \<noteq> 0" "mx = g"
  proof (cases "mx = r")
    case False
    with that show ?thesis by (simp add: h)
  next
    case True
    with that have rg: "r = g" by simp
    have "b \<le> mx" by (simp add: mx_def)
    with True rg have mnb: "mn = b" by (simp add: mn_def min_def)
    have "g - b = mx - mn" using mnb that(2) by simp
    from sector_pos [OF this df that(1)] red [OF that(1) True]
    have "hue = py_mod_double (f_add 60 360) 360" by simp
    then have l: "hue = 60" by (simp add: f_add_def rd_420 py_mod_double_420)
    have "b - r = - (mx - mn)" using mnb True by simp
    from sector_neg [OF this df that(1)]
    have "py_mod_double (f_add (f_mul 60 (f_div (f_sub b r) diff)) 120) 360
          = py_mod_double (f_add (- 60) 120) 360" by simp
    also have "\<dots> = 60" by (simp add: f_add_def rd_60 py_mod_double_small)
    finally show ?thesis using l by simp
  qed
  have blue: "hue = py_mod_double (f_add (f_mul 60 (f_div (f_sub r g) diff)) 240) 360"
    if "diff \<noteq> 0" "mx = b"
  proof (cases "mx = r")
    case True
    with that have rb: "r = b" by simp
    have "g \<le> mx" by (simp add: mx_def)
    with True rb have mng: "mn = g" by (simp add: mn_def min_def)
    have "g - b = - (mx - mn)" using mng that(2) by simp
    from sector_neg [OF this df that(1)] red [OF that(1) True]
    have "hue = py_mod_double (f_add (- 60) 360) 360" by simp
    then have l: "hue = 300" by (simp add: f_add_def rd_300 py_mod_double_small)
    have "r - g = mx - mn" using mng True by simp
    from sector_pos [OF this df that(1)]
    have "py_mod_double (f_add (f_mul 60 (f_div (f_sub r g) diff)) 240) 360
          = py_mod_double (f_add 60 240) 360" by simp
    also have "\<dots> = 300" by (simp add: f_add_def rd_300 py_mod_double_small)
    finally show ?thesis using l by simp
  next
    case nr: False
    show ?thesis
    proof (cases "mx = g")
      case True
      with that have gb: "g = b" by simp
      have "r \<le> mx" by (simp add: mx_def)
      with True gb have mnr: "mn = r" by (simp add: mn_def min_def)
      have "b - r = mx - mn" using mnr that(2) by simp
      from sector_pos [OF this df that(1)] green [OF that(1) True]
      have "hue = py_mod_double (f_add 60 120) 360" by simp
      then have l: "hue = 180" by (simp add: f_add_def rd_180 py_mod_double_small)
      have "r - g = - (mx - mn)" using mnr True by simp
      from sector_neg [OF this df that(1)]
      have "py_mod_double (f_add (f_mul 60 (f_div (f_sub r g) diff)) 240) 360
            = py_mod_double (f_add (- 60) 240) 360" by simp
      also have "\<dots> = 180" by (simp add: f_add_def rd_180 py_mod_double_small)
      finally show ?thesis using l by simp
    next
      case False
      with nr that show ?thesis by (simp add: h)
    qed
  qed
  have bnd: "\<bar>x - y\<bar> \<le> mx - mn" if "x \<in> {r, g, b}" "y \<in> {r, g, b}" for x y
    using that unfolding mx_def mn_def by (auto simp: max_def min_def)
  have rng: "0 \<le> hue \<and> hue < 360"
  proof (cases "diff = 0")
    case True
    then show ?thesis by (simp add: h)
  next
    case nz: False
    show ?thesis
    proof (cases "mx = r")
      case True
      have "\<bar>g - b\<bar> \<le> mx - mn" by (rule bnd) simp_all
      from sector_in_range [OF this df nz, of 360] show ?thesis by (simp add: red [OF nz True])
    next
      case nr: False
      show ?thesis
      proof (cases "mx = g")
        case True
        have "\<bar>b - r\<bar> \<le> mx - mn" by (rule bnd) simp_all
        from sector_in_range [OF this df nz, of 120] show ?thesis by (simp add: green [OF nz True])
      next
        case False
        have "\<bar>r - g\<bar> \<le> mx - mn" by (rule bnd) simp_all
        from sector_in_range [OF this df nz, of 240] nz nr False show ?thesis by (simp add: h)
      qed
    qed
  qed
  have z: "round_double (0::real) = 0" by (rule round_double_zero)
  have ex: "rgb_to_hsv_double (255, 0, 0) = (0, 1, 1) \<and> rgb_to_hsv_double (0, 255, 0) = (120, 1, 1)
            \<and> rgb_to_hsv_double (0, 0, 255) = (240, 1, 1)"
    by (simp add: rgb_to_hsv_double_def Let_def f_div_def f_sub_def f_mul_def f_add_def z rd_1
        rd_360 rd_120 rd_240 py_mod_double_small py_mod_double_nonneg py_mod_def)
  from d0 red green blue rng ex show ?thesis by blast
qed

theorem rgb_to_hsv_double_hue_witness:
  "(0::real) \<le> 255 \<and> (255::real) \<le> 255 \<and> (0::real) \<le> 0 \<and> (0::real) \<le> 255
   \<and> (0::real) \<le> 1 / 2 ^ 50 \<and> (1::real) / 2 ^ 50 \<le> 255
   \<and> f_sub (max (max (f_div 255 255) (f_div 0 255)) (f_div (1 / 2 ^ 50) 255))
            (min (min (f_div 255 255) (f_div 0 255)) (f_div (1 / 2 ^ 50) 255)) \<noteq> 0
   \<and> max (max (f_div 255 255) (f_div 0 255)) (f_div (1 / 2 ^ 50) 255) = f_div 255 255
   \<and> fst (rgb_to_hsv_double (255, 0, 1 / 2 ^ 50))
      = py_mod_double (f_add (f_mul 60 (f_div (f_sub (f_div 0 255) (f_div (1 / 2 ^ 50) 255))
          (f_sub (max (max (f_div 255 255) (f_div 0 255)) (f_div (1 / 2 ^ 50) 255))
            (min (min (f_div 255 255) (f_div 0 255)) (f_div (1 / 2 ^ 50) 255))))) 360) 360
   \<and> 0 \<le> fst (rgb_to_hsv_double (255, 0, 1 / 2 ^ 50))
   \<and> fst (rgb_to_hsv_double (255, 0, 1 / 2 ^ 50)) < 360"
proof -
  define B :: real where "B = 282578800148737 / 2 ^ 106"
  have "(1::real) / 2 ^ 50 / 255 = 1 / (255 * 2 ^ 50)" by simp
  then have fb: "f_div (1 / 2 ^ 50) 255 = B" unfolding f_div_def B_def by (simp only: rd_tiny)
  have fr: "f_div 255 255 = 1" by (simp add: f_div_def rd_1)
  have fg: "f_div 0 255 = 0" by (simp add: f_div_def round_double_zero)
  have Bpos: "0 < B" "B < 1" unfolding B_def by simp_all
  have mxv: "max (max 1 0) B = 1" using Bpos by (simp add: max_def)
  have mnv: "min (min 1 0) B = 0" using Bpos by (simp add: min_def)
  have dv: "f_sub 1 0 = 1" by (simp add: f_sub_def rd_1)
  have h1: "(0::real) \<le> 255" "(255::real) \<le> 255" "(0::real) \<le> 0" "(0::real) \<le> 1 / 2 ^ 50"
    "(1::real) / 2 ^ 50 \<le> 255" by simp_all
  note t = rgb_to_hsv_double_hue [OF h1(1) h1(2) h1(3) h1(1) h1(4) h1(5)]
  have nz: "f_sub (max (max (f_div 255 255) (f_div 0 255)) (f_div (1 / 2 ^ 50) 255))
            (min (min (f_div 255 255) (f_div 0 255)) (f_div (1 / 2 ^ 50) 255)) \<noteq> 0"
    unfolding fb fr fg mxv mnv dv by simp
  have mr: "max (max (f_div 255 255) (f_div 0 255)) (f_div (1 / 2 ^ 50) 255) = f_div 255 255"
    unfolding fb fr fg mxv by simp
  note red = t [THEN conjunct2, THEN conjunct1, THEN mp, OF conjI [OF nz mr]]
  note rng = t [THEN conjunct2, THEN conjunct2, THEN conjunct2, THEN conjunct2]
  from rng have lo: "0 \<le> fst (rgb_to_hsv_double (255, 0, 1 / 2 ^ 50))" by (rule conjunct1)
  from rng have hi: "fst (rgb_to_hsv_double (255, 0, 1 / 2 ^ 50)) < 360"
    by (rule conjunct2 [THEN conjunct1])
  show ?thesis
    by (rule conjI [OF h1(1) conjI [OF h1(2) conjI [OF h1(3) conjI [OF h1(1) conjI [OF h1(4)
        conjI [OF h1(5) conjI [OF nz conjI [OF mr conjI [OF red conjI [OF lo hi]]]]]]]]]])
qed

text \<open>
  Against the claim as stated: at \<open>(255, 0, 2\<^sup>-\<^sup>5\<^sup>0)\<close> red attains the maximum and
  \<open>diff\<close> is 1. The source's sum \<^verbatim>\<open>60*((g-b)/diff) + 360\<close> rounds to 360 and the hue is 0,
  whereas the claim's \<^verbatim>\<open>60*((g-b)/diff) mod 360\<close> is 360, which is not below 360.
\<close>

theorem claimed_red_hue_differs:
  "fst (rgb_to_hsv_double (255, 0, 1 / 2 ^ 50)) = 0
   \<and> claimed_hue_double (255, 0, 1 / 2 ^ 50) = 360
   \<and> fst (rgb_to_hsv_double (255, 0, 1 / 2 ^ 50)) \<noteq> claimed_hue_double (255, 0, 1 / 2 ^ 50)
   \<and> \<not> claimed_hue_double (255, 0, 1 / 2 ^ 50) < 360"
proof -
  define B :: real where "B = 282578800148737 / 2 ^ 106"
  have rdB: "round_double B = B" unfolding B_def by (rule rd_tiny_fix)
  have rd60B: "round_double (60 * B) = 60 * B" unfolding B_def by (rule rd_tiny60)
  have rdn: "round_double (360 - 60 * B) = 360" unfolding B_def by (rule rd_near360)
  have "(1::real) / 2 ^ 50 / 255 = 1 / (255 * 2 ^ 50)" by simp
  then have fb: "f_div (1 / 2 ^ 50) 255 = B" unfolding f_div_def B_def by (simp only: rd_tiny)
  have fr: "f_div 255 255 = 1" by (simp add: f_div_def rd_1)
  have fg: "f_div 0 255 = 0" by (simp add: f_div_def round_double_zero)
  have Bpos: "0 < B" "B < 1" "60 * B < 360" unfolding B_def by simp_all
  have mxv: "max (max 1 0) B = 1" using Bpos by (simp add: max_def)
  have mnv: "min (min 1 0) B = 0" using Bpos by (simp add: min_def)
  have dv: "f_sub 1 0 = 1" by (simp add: f_sub_def rd_1)
  have av: "f_sub 0 B = - B" by (simp add: f_sub_def round_double_minus rdB)
  have qv: "f_div (- B) 1 = - B" by (simp add: f_div_def round_double_minus rdB)
  have "round_double (- (60 * B)) = - (60 * B)" by (simp only: round_double_minus rd60B)
  then have pv: "f_mul 60 (- B) = - (60 * B)" by (simp add: f_mul_def)
  have "- (60 * B) + 360 = 360 - 60 * B" by simp
  then have yv: "f_add (- (60 * B)) 360 = 360" unfolding f_add_def by (simp only: rdn)
  have hv: "py_mod_double 360 360 = 0" by (simp add: py_mod_double_nonneg py_mod_def)
  have "- 1 < - (60 * B) / 360" "- (60 * B) / 360 < 0" using Bpos by simp_all
  then have "\<lceil>- (60 * B) / 360\<rceil> = 0" by (simp add: ceiling_eq_iff)
  then have cf: "c_fmod (- (60 * B)) 360 = - (60 * B)" using Bpos by (simp add: c_fmod_def)
  have cv: "py_mod_double (- (60 * B)) 360 = 360"
    using Bpos by (simp add: py_mod_double_def Let_def cf yv)
  have code: "rgb_to_hsv_double (255, 0, 1 / 2 ^ 50) = (0, 1, 1)"
    unfolding rgb_to_hsv_double_def Let_def prod.case fb fr fg mxv mnv dv av qv pv yv hv
    by (simp add: f_div_def rd_1)
  have claim: "claimed_hue_double (255, 0, 1 / 2 ^ 50) = 360"
    unfolding claimed_hue_double_def Let_def prod.case fb fr fg mxv mnv dv av qv pv cv
    by simp
  show ?thesis unfolding code claim by simp
qed

text \<open>
  Claim C6. For every achromatic triple \<open>r = g = b\<close>, whatever the shared channel value,
  \<^verbatim>\<open>rgb_to_hsv\<close> returns hue 0 and saturation 0 (and the normalised channel as value).
\<close>

theorem rgb_to_hsv_achromatic:
  "rgb_to_hsv (c, c, c) = (0, 0, c / 255)"
  by (simp add: rgb_to_hsv_def Let_def)

section \<open>Properties of \<^verbatim>\<open>analyze_colors\<close>\<close>






section \<open>Properties of the sort step\<close>

lemma list_index_position:
  "c \<in> set xs \<Longrightarrow> list_index xs c = Inr (length (takeWhile (\<lambda>x. x \<noteq> c) xs))"
  by (induction xs) auto

lemma list_index_absent: "c \<notin> set xs \<Longrightarrow> list_index xs c = Inl ValueError"
  by (induction xs) auto

lemma sort_key_of_valid:
  "category x \<in> set categories_order \<Longrightarrow>
     sort_key_of x = Inr (category_position (category x), avg_hue x)"
  by (simp add: sort_key_of_def category_position_def list_index_position)

lemma compute_keys_valid:
  "\<forall>x\<in>set xs. category x \<in> set categories_order \<Longrightarrow>
     compute_keys xs = Inr (map (\<lambda>x. (category_position (category x), avg_hue x)) xs)"
  by (induction xs) (simp_all add: sort_key_of_valid)

lemma insort_key_decorated:
  "\<forall>z\<in>set zs. fst z = f (snd z) \<Longrightarrow>
     map snd (insort_key fst (f x, x) zs) = insort_key f x (map snd zs)"
  by (induction zs) auto

lemma set_insort_key_decorated:
  "\<forall>z\<in>set (sort_key fst (map (\<lambda>x. (f x, x)) xs)). fst z = f (snd z)"
  by auto

lemma sort_key_decorated:
  "map snd (sort_key fst (zip (map f xs) xs)) = sort_key f xs"
proof -
  have z: "zip (map f xs) xs = map (\<lambda>x. (f x, x)) xs"
    by (induction xs) simp_all
  have "map snd (sort_key fst (map (\<lambda>x. (f x, x)) xs)) = sort_key f xs"
  proof (induction xs)
    case Nil
    show ?case by simp
  next
    case (Cons x xs)
    have "map snd (sort_key fst (map (\<lambda>x. (f x, x)) (x # xs)))
          = map snd (insort_key fst (f x, x) (sort_key fst (map (\<lambda>x. (f x, x)) xs)))"
      by simp
    also have "\<dots> = insort_key f x (map snd (sort_key fst (map (\<lambda>x. (f x, x)) xs)))"
      by (rule insort_key_decorated) (rule set_insort_key_decorated)
    also have "\<dots> = sort_key f (x # xs)" by (simp add: Cons.IH)
    finally show ?case .
  qed
  with z show ?thesis by simp
qed

lemma sort_categorized_valid:
  "\<forall>x\<in>set xs. category x \<in> set categories_order \<Longrightarrow>
     sort_categorized xs = Inr (sort_key (\<lambda>x. (category_position (category x), avg_hue x)) xs)"
  by (simp add: sort_categorized_def compute_keys_valid sort_key_decorated)

lemma category_position_values:
  "map category_position categories_order = [0, 1, 2, 3, 4]"
  by (simp add: category_position_def categories_order_def)

lemma category_position_inj:
  "c \<in> set categories_order \<Longrightarrow> d \<in> set categories_order \<Longrightarrow>
     category_position c = category_position d \<Longrightarrow> c = d"
  by (auto simp: category_position_def categories_order_def)

text \<open>
  Claim C4. For every list of image records whose categories are among the five names, the
  sort step succeeds and returns a rearrangement of the list that is ordered by the
  category's position in \<^verbatim>\<open>['earthy', 'warm', 'bright', 'cool', 'muted']\<close> ascending, then by
  hue ascending; records with equal category and hue keep their input order. The position
  is the index the source looks up, earthy 0 to muted 4. The records
  \<open>(A, bright, 10)\<close>, \<open>(B, earthy, 350)\<close>, \<open>(C, earthy, 5)\<close> come out in the order
  \<open>C, B, A\<close>, whatever their saturations and values.
\<close>

theorem sort_categorized_stable_order:
  assumes valid: "\<forall>x\<in>set rs. category x \<in> set categories_order"
  shows "(\<exists>ys. sort_categorized rs = Inr ys
          \<and> mset ys = mset rs
          \<and> sorted_wrt (\<lambda>a b. category_position (category a) < category_position (category b)
                \<or> (category_position (category a) = category_position (category b)
                    \<and> avg_hue a \<le> avg_hue b)) ys
          \<and> (\<forall>c h. filter (\<lambda>x. category x = c \<and> avg_hue x = h) ys
                   = filter (\<lambda>x. category x = c \<and> avg_hue x = h) rs))
       \<and> (\<forall>x\<in>set rs. list_index categories_order (category x)
                          = Inr (category_position (category x)))
       \<and> map category_position categories_order = [0, 1, 2, 3, 4]
       \<and> map_sum id (map img_file) (sort_categorized
            [\<lparr>img_file = ''A'', category = ''bright'', avg_hue = 10, avg_sat = s1, avg_val = v1\<rparr>,
             \<lparr>img_file = ''B'', category = ''earthy'', avg_hue = 350, avg_sat = s2, avg_val = v2\<rparr>,
             \<lparr>img_file = ''C'', category = ''earthy'', avg_hue = 5, avg_sat = s3, avg_val = v3\<rparr>])
          = Inr [''C'', ''B'', ''A'']"
proof -
  let ?key = "\<lambda>x. (category_position (category x), avg_hue x)"
  let ?ys = "sort_key ?key rs"
  have res: "sort_categorized rs = Inr ?ys" by (rule sort_categorized_valid [OF valid])
  have perm: "mset ?ys = mset rs" by simp
  have "sorted (map ?key ?ys)" by (rule sorted_sort_key)
  then have ord: "sorted_wrt (\<lambda>a b. category_position (category a) < category_position (category b)
                \<or> (category_position (category a) = category_position (category b)
                    \<and> avg_hue a \<le> avg_hue b)) ?ys"
    unfolding sorted_map by (rule sorted_wrt_mono_rel [rotated]) auto
  have stab: "filter (\<lambda>x. category x = c \<and> avg_hue x = h) ?ys
                   = filter (\<lambda>x. category x = c \<and> avg_hue x = h) rs" for c h
  proof (cases "c \<in> set categories_order")
    case True
    have eq: "(category x = c \<and> avg_hue x = h) = (?key x = (category_position c, h))"
      if "x \<in> set rs" for x
      using that valid True category_position_inj by auto
    have "filter (\<lambda>x. category x = c \<and> avg_hue x = h) ?ys
          = filter (\<lambda>x. ?key x = (category_position c, h)) ?ys"
      by (rule filter_cong) (simp_all add: eq)
    also have "\<dots> = filter (\<lambda>x. ?key x = (category_position c, h)) rs"
      by (rule sort_key_stable)
    also have "\<dots> = filter (\<lambda>x. category x = c \<and> avg_hue x = h) rs"
      by (rule filter_cong) (simp_all add: eq)
    finally show ?thesis .
  next
    case False
    with valid have "\<forall>x\<in>set rs. category x \<noteq> c" by auto
    then show ?thesis by (simp add: filter_empty_conv [THEN iffD2])
  qed
  have idx: "list_index categories_order (category x) = Inr (category_position (category x))"
    if "x \<in> set rs" for x
    using that valid by (simp add: category_position_def list_index_position)
  have ex: "map_sum id (map img_file) (sort_categorized
            [\<lparr>img_file = ''A'', category = ''bright'', avg_hue = 10, avg_sat = s1, avg_val = v1\<rparr>,
             \<lparr>img_file = ''B'', category = ''earthy'', avg_hue = 350, avg_sat = s2, avg_val = v2\<rparr>,
             \<lparr>img_file = ''C'', category = ''earthy'', avg_hue = 5, avg_sat = s3, avg_val = v3\<rparr>])
          = Inr [''C'', ''B'', ''A'']"
    by (simp add: sort_categorized_def sort_key_of_def categories_order_def)
  have first: "\<exists>ys. sort_categorized rs = Inr ys
          \<and> mset ys = mset rs
          \<and> sorted_wrt (\<lambda>a b. category_position (category a) < category_position (category b)
                \<or> (category_position (category a) = category_position (category b)
                    \<and> avg_hue a \<le> avg_hue b)) ys
          \<and> (\<forall>c h. filter (\<lambda>x. category x = c \<and> avg_hue x = h) ys
                   = filter (\<lambda>x. category x = c \<and> avg_hue x = h) rs)"
  proof (intro exI [of _ ?ys] conjI allI)
    show "sort_categorized rs = Inr ?ys" by (rule res)
    show "mset ?ys = mset rs" by (rule perm)
    show "sorted_wrt (\<lambda>a b. category_position (category a) < category_position (category b)
                \<or> (category_position (category a) = category_position (category b)
                    \<and> avg_hue a \<le> avg_hue b)) ?ys" by (rule ord)
    show "filter (\<lambda>x. category x = c \<and> avg_hue x = h) ?ys
                   = filter (\<lambda>x. category x = c \<and> avg_hue x = h) rs" for c h by (rule stab)
  qed
  have second: "\<forall>x\<in>set rs. list_index categories_order (category x)
                          = Inr (category_position (category x))"
    using idx by (rule ballI)
  show ?thesis
    by (rule conjI [OF first conjI [OF second conjI [OF category_position_values ex]]])
qed

theorem sort_categorized_stable_order_witness:
  "category \<lparr>img_file = ''x.png'', category = ''cool'', avg_hue = 200, avg_sat = 0.5, avg_val = 0.5\<rparr>
     \<in> set categories_order
   \<and> category \<lparr>img_file = ''y.png'', category = ''warm'', avg_hue = 20, avg_sat = 0.5, avg_val = 0.5\<rparr>
     \<in> set categories_order
   \<and> category \<lparr>img_file = ''z.png'', category = ''cool'', avg_hue = 200, avg_sat = 0.1, avg_val = 0.9\<rparr>
     \<in> set categories_order
   \<and> sort_categorized
       [\<lparr>img_file = ''x.png'', category = ''cool'', avg_hue = 200, avg_sat = 0.5, avg_val = 0.5\<rparr>,
        \<lparr>img_file = ''y.png'', category = ''warm'', avg_hue = 20, avg_sat = 0.5, avg_val = 0.5\<rparr>,
        \<lparr>img_file = ''z.png'', category = ''cool'', avg_hue = 200, avg_sat = 0.1, avg_val = 0.9\<rparr>]
     = Inr
       [\<lparr>img_file = ''y.png'', category = ''warm'', avg_hue = 20, avg_sat = 0.5, avg_val = 0.5\<rparr>,
        \<lparr>img_file = ''x.png'', category = ''cool'', avg_hue = 200, avg_sat = 0.5, avg_val = 0.5\<rparr>,
        \<lparr>img_file = ''z.png'', category = ''cool'', avg_hue = 200, avg_sat = 0.1, avg_val = 0.9\<rparr>]
   \<and> list_index categories_order ''cool'' = Inr (category_position ''cool'')
   \<and> category_position ''cool'' = 3"
proof -
  let ?x = "\<lparr>img_file = ''x.png'', category = ''cool'', avg_hue = 200, avg_sat = 0.5, avg_val = 0.5\<rparr>"
  let ?y = "\<lparr>img_file = ''y.png'', category = ''warm'', avg_hue = 20, avg_sat = 0.5, avg_val = 0.5\<rparr>"
  let ?z = "\<lparr>img_file = ''z.png'', category = ''cool'', avg_hue = 200, avg_sat = 0.1, avg_val = 0.9\<rparr>"
  have hx: "category ?x \<in> set categories_order" by (simp add: categories_order_def)
  have hy: "category ?y \<in> set categories_order" by (simp add: categories_order_def)
  have hz: "category ?z \<in> set categories_order" by (simp add: categories_order_def)
  have h: "\<forall>r\<in>set [?x, ?y, ?z]. category r \<in> set categories_order"
    using hx hy hz by simp
  note t = sort_categorized_stable_order [OF h]
  have srt: "sort_categorized [?x, ?y, ?z] = Inr [?y, ?x, ?z]"
    by (simp add: sort_categorized_def sort_key_of_def categories_order_def)
  from t have "\<forall>r\<in>set [?x, ?y, ?z]. list_index categories_order (category r)
                          = Inr (category_position (category r))"
    by (rule conjunct2 [THEN conjunct1])
  then have idx: "list_index categories_order ''cool'' = Inr (category_position ''cool'')"
    by simp
  have pos: "category_position ''cool'' = 3"
    by (simp add: category_position_def categories_order_def)
  show ?thesis
    by (rule conjI [OF hx conjI [OF hy conjI [OF hz conjI [OF srt conjI [OF idx pos]]]]])
qed

section \<open>Properties of the loops of \<^verbatim>\<open>main\<close>\<close>





lemma analyze_images_append:
  "analyze_images ex (pre @ rest) acc =
     (case analyze_images ex pre acc of
        Inl r \<Rightarrow> Inl r
      | Inr recs \<Rightarrow> analyze_images ex rest recs)"
  by (induction pre arbitrary: acc) (simp_all split: sum.splits prod.splits)

lemma analyze_images_all_succeed:
  "\<forall>f\<in>set images. \<exists>p. ex f = Inr p \<Longrightarrow>
     \<exists>recs. analyze_images ex images acc = Inr recs
        \<and> map img_file recs = map img_file acc @ images"
proof (induction images arbitrary: acc)
  case Nil
  show ?case by simp
next
  case (Cons f fs)
  from Cons.prems obtain palette weights where p: "ex f = Inr (palette, weights)" by fastforce
  obtain h s v where a: "analyze_colors palette weights = (h, s, v)" by (cases "analyze_colors palette weights")
  let ?acc = "acc @ [\<lparr>img_file = f, category = categorize_color h s v,
                    avg_hue = h, avg_sat = s, avg_val = v\<rparr>]"
  from Cons.prems have "\<forall>f\<in>set fs. \<exists>p. ex f = Inr p" by simp
  from Cons.IH [OF this, of ?acc] obtain recs where
    "analyze_images ex fs ?acc = Inr recs" "map img_file recs = map img_file ?acc @ fs" by blast
  with p a show ?case by simp
qed

lemma analyze_images_categories:
  "analyze_images ex images acc = Inr recs \<or> analyze_images ex images acc = Inl (e, recs) \<Longrightarrow>
     \<forall>r\<in>set acc. category r \<in> set categories_order \<Longrightarrow>
     \<forall>r\<in>set recs. category r \<in> set categories_order"
proof (induction images arbitrary: acc)
  case Nil
  then show ?case by simp
next
  case (Cons f fs)
  show ?case
  proof (cases "ex f")
    case (Inl e')
    with Cons.prems show ?thesis by simp
  next
    case (Inr p)
    obtain palette weights where pw: "p = (palette, weights)" by (cases p)
    obtain h s v where a: "analyze_colors palette weights = (h, s, v)" by (cases "analyze_colors palette weights")
    let ?acc = "acc @ [\<lparr>img_file = f, category = categorize_color h s v,
                    avg_hue = h, avg_sat = s, avg_val = v\<rparr>]"
    have "analyze_images ex fs ?acc = Inr recs \<or> analyze_images ex fs ?acc = Inl (e, recs)"
      using Cons.prems(1) Inr pw a by simp
    moreover have "\<forall>r\<in>set ?acc. category r \<in> set categories_order"
      using Cons.prems(2) by (simp add: categorize_color_cases)
    ultimately show ?thesis by (rule Cons.IH)
  qed
qed





lemma takeWhile_position_less:
  "c \<in> set xs \<Longrightarrow> length (takeWhile (\<lambda>x. x \<noteq> c) xs) < length xs"
  by (induction xs) auto

text \<open>
  Claim C9. The claim says that a failure for one image does not abort the batch. The
  analysis loop has no \<^verbatim>\<open>try\<close>: when \<^verbatim>\<open>extract_palette\<close> raises for an image, the
  loop ends there with that exception, holding only the records of the images before it;
  \<^verbatim>\<open>main\<close> ends with the same exception, the images after it are never analysed, and
  nothing is sorted or renamed. The failure surfaces as that uncaught exception. Only when
  no image fails does every image get its record, in listing order.
\<close>

theorem analyze_images_no_isolation:
  fixes os_rename :: "'c renamer"
  shows "(analyze_images ex pre [] = Inr recs \<and> ex bad = Inl e
          \<longrightarrow> analyze_images ex (pre @ bad # post) [] = Inl (e, recs)
              \<and> main ex os_rename (pre @ bad # post) fs = Inl (e, fs))
       \<and> ((\<forall>f\<in>set images. \<exists>p. ex f = Inr p)
          \<longrightarrow> (\<exists>recs. analyze_images ex images [] = Inr recs \<and> map img_file recs = images))"
proof (intro conjI impI)
  assume a: "analyze_images ex pre [] = Inr recs \<and> ex bad = Inl e"
  then show r: "analyze_images ex (pre @ bad # post) [] = Inl (e, recs)"
    by (simp add: analyze_images_append)
  then show "main ex os_rename (pre @ bad # post) fs = Inl (e, fs)"
    by (simp add: main_def)
next
  assume "\<forall>f\<in>set images. \<exists>p. ex f = Inr p"
  from analyze_images_all_succeed [OF this, of "[]"]
  show "\<exists>recs. analyze_images ex images [] = Inr recs \<and> map img_file recs = images"
    by simp
qed

theorem analyze_images_no_isolation_witness:
  "analyze_images (\<lambda>f. if f = ''bad.png'' then Inl UnidentifiedImageError else Inr ([(255, 0, 0)], [1]))
      [''ok.png''] []
     = Inr [\<lparr>img_file = ''ok.png'', category = ''bright'', avg_hue = 0, avg_sat = 1, avg_val = 1\<rparr>]
   \<and> (\<lambda>f. if f = ''bad.png'' then Inl UnidentifiedImageError else Inr ([(255, 0, 0)], [1::real]))
        ''bad.png'' = (Inl UnidentifiedImageError :: py_error + (rgb list \<times> real list))
   \<and> analyze_images (\<lambda>f. if f = ''bad.png'' then Inl UnidentifiedImageError else Inr ([(255, 0, 0)], [1]))
        [''ok.png'', ''bad.png'', ''late.png''] []
     = Inl (UnidentifiedImageError,
            [\<lparr>img_file = ''ok.png'', category = ''bright'', avg_hue = 0, avg_sat = 1, avg_val = 1\<rparr>])
   \<and> main (\<lambda>f. if f = ''bad.png'' then Inl UnidentifiedImageError else Inr ([(255, 0, 0)], [1]))
        posix_rename [''ok.png'', ''bad.png'', ''late.png'']
        [''ok.png'' \<mapsto> 1::nat, ''bad.png'' \<mapsto> 2, ''late.png'' \<mapsto> 3]
     = Inl (UnidentifiedImageError, [''ok.png'' \<mapsto> 1, ''bad.png'' \<mapsto> 2, ''late.png'' \<mapsto> 3])"
proof -
  let ?ex = "\<lambda>f. if f = ''bad.png'' then Inl UnidentifiedImageError else Inr ([(255, 0, 0)], [1::real])"
  let ?ok = "\<lparr>img_file = ''ok.png'', category = ''bright'', avg_hue = 0, avg_sat = 1, avg_val = 1\<rparr>"
  let ?F = "[''ok.png'' \<mapsto> 1::nat, ''bad.png'' \<mapsto> 2, ''late.png'' \<mapsto> 3]"
  have ac: "analyze_colors [(255, 0, 0)] [1] = (0, 1, 1)"
    by (simp add: analyze_colors_def rgb_to_hsv_def Let_def py_mod_def py_sum_def)
  have cc: "categorize_color 0 1 1 = ''bright''"
    by (simp add: categorize_color_def)
  have h1: "analyze_images ?ex [''ok.png''] [] = Inr [?ok]"
    by (simp add: ac cc)
  have h2: "?ex ''bad.png'' = Inl UnidentifiedImageError" by simp
  note t = analyze_images_no_isolation [where ex = ?ex and pre = "[''ok.png'']" and recs = "[?ok]"
      and bad = "''bad.png''" and e = UnidentifiedImageError and post = "[''late.png'']"
      and os_rename = posix_rename and fs = ?F]
  note t1 = t [THEN conjunct1, THEN mp, OF conjI [OF h1 h2]]
  from t1 have r: "analyze_images ?ex [''ok.png'', ''bad.png'', ''late.png''] [] = Inl (UnidentifiedImageError, [?ok])
        \<and> main ?ex posix_rename [''ok.png'', ''bad.png'', ''late.png''] ?F = Inl (UnidentifiedImageError, ?F)"
    by (simp only: append_Cons append_Nil)
  show ?thesis by (rule conjI [OF h1 conjI [OF h2 r]])
qed

text \<open>
  Against the claim as stated: \<^verbatim>\<open>bad.png\<close> cannot be decoded, \<^verbatim>\<open>good.png\<close> can.
  The batch of both ends with the exception, no record for \<^verbatim>\<open>good.png\<close> and the
  folder untouched, whereas \<^verbatim>\<open>good.png\<close> alone is analysed and renamed.
\<close>

theorem analyze_images_bad_image_aborts:
  "(\<lambda>f. if f = ''bad.png'' then Inl UnidentifiedImageError else Inr ([(255, 0, 0)], [1::real]))
        ''good.png'' = (Inr ([(255, 0, 0)], [1]) :: py_error + (rgb list \<times> real list))
   \<and> analyze_images (\<lambda>f. if f = ''bad.png'' then Inl UnidentifiedImageError else Inr ([(255, 0, 0)], [1]))
        [''bad.png'', ''good.png''] []
     = Inl (UnidentifiedImageError, [])
   \<and> main (\<lambda>f. if f = ''bad.png'' then Inl UnidentifiedImageError else Inr ([(255, 0, 0)], [1]))
        posix_rename [''bad.png'', ''good.png''] [''bad.png'' \<mapsto> 1::nat, ''good.png'' \<mapsto> 2]
     = Inl (UnidentifiedImageError, [''bad.png'' \<mapsto> 1, ''good.png'' \<mapsto> 2])
   \<and> main (\<lambda>f. if f = ''bad.png'' then Inl UnidentifiedImageError else Inr ([(255, 0, 0)], [1]))
        posix_rename [''good.png''] [''bad.png'' \<mapsto> 1::nat, ''good.png'' \<mapsto> 2]
     = Inr [''bad.png'' \<mapsto> 1, ''1.png'' \<mapsto> 2]"
proof -
  have ac: "analyze_colors [(255, 0, 0)] [1] = (0, 1, 1)"
    by (simp add: analyze_colors_def rgb_to_hsv_def Let_def py_mod_def py_sum_def)
  have cc: "categorize_color 0 1 1 = ''bright''"
    by (simp add: categorize_color_def)
  have n: "new_name (Suc 0) ''good.png'' = ''1.png''"
    by (simp add: new_name_def splitext_def digit_char_def str_of_nat.simps)
  have m: "([''bad.png'' \<mapsto> 1::nat, ''good.png'' \<mapsto> 2](''good.png'' := None))(''1.png'' \<mapsto> 2)
           = [''bad.png'' \<mapsto> 1, ''1.png'' \<mapsto> 2]"
    by simp
  show ?thesis
    by (simp add: main_def ac cc n m sort_categorized_def sort_key_of_def categories_order_def
        posix_rename_def)
qed

text \<open>
  Claim C10. Every record the analysis loop appends carries a category that is a member of
  \<^verbatim>\<open>categories_order\<close>, so the key lookup \<^verbatim>\<open>categories_order.index\<close> succeeds for every
  element the sort step sees, and the sort step itself raises nothing.
\<close>

theorem appended_categories_indexable:
  assumes "analyze_images ex images [] = Inr recs \<or> analyze_images ex images [] = Inl (e, recs)"
  shows "(\<forall>r\<in>set recs. category r \<in> set categories_order
            \<and> (\<exists>i. list_index categories_order (category r) = Inr i \<and> i < length categories_order))
       \<and> (\<exists>ys. sort_categorized recs = Inr ys)"
proof -
  have v: "\<forall>r\<in>set recs. category r \<in> set categories_order"
    using assms by (rule analyze_images_categories) simp
  have "\<exists>i. list_index categories_order (category r) = Inr i \<and> i < length categories_order"
    if "r \<in> set recs" for r
  proof -
    from that v have m: "category r \<in> set categories_order" by simp
    then have "list_index categories_order (category r)
               = Inr (length (takeWhile (\<lambda>x. x \<noteq> category r) categories_order))"
      by (rule list_index_position)
    moreover from m have "length (takeWhile (\<lambda>x. x \<noteq> category r) categories_order)
                          < length categories_order"
      by (rule takeWhile_position_less)
    ultimately show ?thesis by blast
  qed
  with v have first: "\<forall>r\<in>set recs. category r \<in> set categories_order
            \<and> (\<exists>i. list_index categories_order (category r) = Inr i \<and> i < length categories_order)"
    by blast
  have second: "\<exists>ys. sort_categorized recs = Inr ys"
    using sort_categorized_valid [OF v] by blast
  show ?thesis by (rule conjI [OF first second])
qed

theorem appended_categories_indexable_witness:
  "analyze_images (\<lambda>f. Inr ([(255, 0, 0)], [1])) [''x.png''] []
     = Inr [\<lparr>img_file = ''x.png'', category = ''bright'', avg_hue = 0, avg_sat = 1, avg_val = 1\<rparr>]
   \<and> ''bright'' \<in> set categories_order
   \<and> list_index categories_order ''bright'' = Inr 2
   \<and> sort_categorized [\<lparr>img_file = ''x.png'', category = ''bright'', avg_hue = 0, avg_sat = 1, avg_val = 1\<rparr>]
     = Inr [\<lparr>img_file = ''x.png'', category = ''bright'', avg_hue = 0, avg_sat = 1, avg_val = 1\<rparr>]"
proof -
  let ?ex = "\<lambda>f::string. (Inr ([(255, 0, 0)], [1]) :: py_error + (rgb list \<times> real list))"
  let ?x = "\<lparr>img_file = ''x.png'', category = ''bright'', avg_hue = 0, avg_sat = 1, avg_val = 1\<rparr>"
  have ac: "analyze_colors [(255, 0, 0)] [1] = (0, 1, 1)"
    by (simp add: analyze_colors_def rgb_to_hsv_def Let_def py_mod_def py_sum_def)
  have cc: "categorize_color 0 1 1 = ''bright''"
    by (simp add: categorize_color_def)
  have h: "analyze_images ?ex [''x.png''] [] = Inr [?x]"
    by (simp add: ac cc)
  then have h': "analyze_images ?ex [''x.png''] [] = Inr [?x]
                 \<or> analyze_images ?ex [''x.png''] [] = Inl (ValueError, [?x])"
    by (rule disjI1)
  note t = appended_categories_indexable [OF h']
  from t have "\<forall>r\<in>set [?x]. category r \<in> set categories_order
            \<and> (\<exists>i. list_index categories_order (category r) = Inr i \<and> i < length categories_order)"
    by (rule conjunct1)
  then have m: "''bright'' \<in> set categories_order" by simp
  have i: "list_index categories_order ''bright'' = Inr 2"
    by (simp add: categories_order_def)
  have s: "sort_categorized [?x] = Inr [?x]"
    by (simp add: sort_categorized_def sort_key_of_def categories_order_def)
  show ?thesis by (rule conjI [OF h conjI [OF m conjI [OF i s]]])
qed

end
